theory Spec2Isabelle
  imports Main
begin

section \<open>The notifier of synapse (synapse/notifier.py)\<close>

text \<open>
  The notifier keeps two dictionaries of sets of listeners, one keyed by room and one keyed
  by user. A listener stands for one suspended request on the events stream; it is resolved
  by calling back the Deferred it holds, and resolution discards the listener from the
  dictionary entries of its own rooms and of its own user.

  Modelling decisions.
  \<^item> A Python dictionary of sets is a map into sets; \<open>d.get(k, set())\<close> reads an absent key as
    the empty set, \<open>d.setdefault(k, set())\<close> creates the entry.
  \<^item> A listener object is a record. Its attributes are never assigned after construction, so
    the record value stands for the object; the field \<open>ident\<close> is the object's identity
    (two listeners built from equal arguments are different objects).
  \<^item> A Twisted Deferred is a cell that is empty until its first \<open>callback\<close>; a later
    \<open>callback\<close> raises \<open>AlreadyCalledError\<close>. The cells live in the state, addressed by number.
  \<^item> \<open>reactor.callLater\<close> appends to a list of pending calls; the firing of a pending call is
    the function \<open>timeout_listener\<close> applied by the environment.
  \<^item> An event source is a function from (user, cursor, limit) to (events, new cursor); the
    sources are arguments of every operation, since their answers change between calls. A
    query is taken to return: a failing query is outside the model.
  \<^item> Python iterates a set in an order it does not specify; the loops over a set of listeners
    take the order as an argument \<open>iter\<close>, a function from the set to the list visited.
  \<^item> Each operation runs to its end before the next begins: what another operation would do
    when it is scheduled at a \<open>yield\<close> of a running one is outside the model.
  \<^item> \<open>timeout\<close> is a natural number of milliseconds, zero for the falsy values; the delay
    handed to the reactor is the integer quotient \<open>timeout/1000\<close>.
\<close>

type_synonym user_id = string
type_synonym room = string
type_synonym token = nat
type_synonym event = string

text \<open>What a Deferred delivers: \<open>(events, (start_token, end_token))\<close>.\<close>

type_synonym result = "event list \<times> (token \<times> token)"

type_synonym source = "user_id \<Rightarrow> token \<Rightarrow> nat \<Rightarrow> event list \<times> token"

datatype defer_error = AlreadyCalledError

record listener =
  ident :: nat
  user :: user_id
  rooms :: "room list"
  from_token :: token
  limit :: nat
  timeout :: nat
  deferred :: nat
  pending_notifications :: "event list"

text \<open>
  The state: the two indices of the \<open>Notifier\<close> object, the Deferred cells, the reactor's
  pending calls (delay in seconds, listener), and the next free addresses.
\<close>

record state =
  rooms_to_listeners :: "room \<rightharpoonup> listener set"
  user_to_listeners :: "user_id \<rightharpoonup> listener set"
  deferreds :: "nat \<rightharpoonup> result"
  timers :: "(nat \<times> listener) list"
  next_deferred :: nat
  next_listener :: nat

text \<open>The event source aggregate: the dictionary \<open>sources\<close> in its iteration order, and
  the answer of \<open>get_current_token()\<close>.\<close>

record event_sources =
  sources :: "(string \<times> source) list"
  get_current_token :: token

record room_event =
  room_id :: room
  event_id :: event

definition init :: state where
  "init = \<lparr>rooms_to_listeners = Map.empty, user_to_listeners = Map.empty,
           deferreds = Map.empty, timers = [], next_deferred = 0, next_listener = 0\<rparr>"

subsection \<open>Dictionary-of-sets primitives\<close>

text \<open>\<open>d.get(k, set())\<close>\<close>

definition get_set :: "('k \<rightharpoonup> 'a set) \<Rightarrow> 'k \<Rightarrow> 'a set" where
  "get_set d k = (case d k of None \<Rightarrow> {} | Some S \<Rightarrow> S)"

text \<open>\<open>d.get(k, set()).discard(x)\<close>: an absent key stays absent, a present set is updated in place.\<close>

definition discard_at :: "('k \<rightharpoonup> 'a set) \<Rightarrow> 'k \<Rightarrow> 'a \<Rightarrow> ('k \<rightharpoonup> 'a set)" where
  "discard_at d k x = (case d k of None \<Rightarrow> d | Some S \<Rightarrow> d(k \<mapsto> S - {x}))"

text \<open>\<open>d.setdefault(k, set()).add(x)\<close>\<close>

definition add_at :: "('k \<rightharpoonup> 'a set) \<Rightarrow> 'k \<Rightarrow> 'a \<Rightarrow> ('k \<rightharpoonup> 'a set)" where
  "add_at d k x = d(k \<mapsto> insert x (get_set d k))"

subsection \<open>The listener\<close>

text \<open>\<open>Deferred.callback\<close>: the first call stores the result, a later one raises.\<close>

definition callback :: "state \<Rightarrow> nat \<Rightarrow> result \<Rightarrow> defer_error + state" where
  "callback s d r =
     (case deferreds s d of
        Some _ \<Rightarrow> Inl AlreadyCalledError
      | None \<Rightarrow> Inr (s\<lparr>deferreds := (deferreds s)(d \<mapsto> r)\<rparr>))"

text \<open>
  \<open>_NotificationListener.notify\<close>: call back the Deferred, swallowing \<open>AlreadyCalledError\<close>;
  then discard the listener from the entry of every room in \<open>self.rooms\<close> and from the entry
  of \<open>self.user\<close>. The discards run on every call, also when the callback raised.
\<close>

definition notify :: "state \<Rightarrow> listener \<Rightarrow> event list \<Rightarrow> token \<Rightarrow> token \<Rightarrow> state" where
  "notify s l events start_token end_token =
     (let result = (events, (start_token, end_token));
          s1 = (case callback s (deferred l) result of
                  Inl AlreadyCalledError \<Rightarrow> s
                | Inr s' \<Rightarrow> s');
          s2 = s1\<lparr>rooms_to_listeners :=
                    fold (\<lambda>r d. discard_at d r l) (rooms l) (rooms_to_listeners s1)\<rparr>
      in s2\<lparr>user_to_listeners := discard_at (user_to_listeners s2) (user l) l\<rparr>)"

subsection \<open>The notifier\<close>

text \<open>\<open>Notifier._timeout_listener\<close>\<close>

definition timeout_listener :: "state \<Rightarrow> listener \<Rightarrow> state" where
  "timeout_listener s l = notify s l [] (from_token l) (from_token l)"

text \<open>\<open>Notifier._register_with_keys\<close>\<close>

definition register_with_keys :: "state \<Rightarrow> listener \<Rightarrow> state" where
  "register_with_keys s l =
     (let s1 = s\<lparr>rooms_to_listeners :=
                   fold (\<lambda>r d. add_at d r l) (rooms l) (rooms_to_listeners s)\<rparr>
      in s1\<lparr>user_to_listeners := add_at (user_to_listeners s1) (user l) l\<rparr>)"

text \<open>
  The loop of \<open>Notifier._check_for_updates\<close> over \<open>sources.values()\<close>. Besides the accumulated
  events and the running cursor it returns the log of the cursors handed to the sources, one
  per query in the order of the queries; the log is an observation and feeds nothing back.
\<close>

fun poll_sources ::
  "source list \<Rightarrow> user_id \<Rightarrow> nat \<Rightarrow> token \<Rightarrow> event list \<Rightarrow> token list
     \<Rightarrow> event list \<times> token \<times> token list" where
  "poll_sources [] u lim tok events log = (events, tok, log)"
| "poll_sources (src # rest) u lim tok events log =
     (case src u tok lim of
        (stuff, new_token) \<Rightarrow> poll_sources rest u lim new_token (events @ stuff) (log @ [tok]))"

text \<open>\<open>Notifier._check_for_updates\<close>\<close>

definition check_for_updates :: "event_sources \<Rightarrow> state \<Rightarrow> listener \<Rightarrow> state" where
  "check_for_updates es s l =
     (case poll_sources (map snd (sources es)) (user l) (limit l) (from_token l) [] [] of
        (events, end_token, _) \<Rightarrow>
          if events \<noteq> [] then notify s l events (from_token l) end_token else s)"

text \<open>\<open>Notifier._user_joined_room\<close>: the in-place union \<open>listeners |= new_listeners\<close> on the
  set that \<open>setdefault\<close> returned.\<close>

definition user_joined_room :: "state \<Rightarrow> user_id \<Rightarrow> room \<Rightarrow> state" where
  "user_joined_room s u rid =
     (let new_listeners = get_set (user_to_listeners s) u;
          listeners = get_set (rooms_to_listeners s) rid
      in s\<lparr>rooms_to_listeners := (rooms_to_listeners s)(rid \<mapsto> listeners \<union> new_listeners)\<rparr>)"

text \<open>The loop shared by \<open>on_new_room_event\<close> and \<open>on_new_user_event\<close>: query the source for
  each listener of the snapshot and notify those with events.\<close>

fun wake :: "source \<Rightarrow> state \<Rightarrow> listener list \<Rightarrow> state" where
  "wake src s [] = s"
| "wake src s (l # ls) =
     (case src (user l) (from_token l) (limit l) of
        (events, end_token) \<Rightarrow>
          wake src (if events \<noteq> [] then notify s l events (from_token l) end_token else s) ls)"

text \<open>The snapshot of \<open>on_new_room_event\<close>: a copy of the room's entry, united with a copy of
  the entry of each extra user.\<close>

definition room_event_listeners :: "state \<Rightarrow> room \<Rightarrow> user_id list \<Rightarrow> listener set" where
  "room_event_listeners s rid extra_users =
     fold (\<lambda>u ls. ls \<union> get_set (user_to_listeners s) u) extra_users
       (get_set (rooms_to_listeners s) rid)"

text \<open>\<open>Notifier.on_new_room_event\<close>; \<open>None\<close> is the \<open>KeyError\<close> of \<open>sources["room"]\<close>.\<close>

definition on_new_room_event ::
  "event_sources \<Rightarrow> (listener set \<Rightarrow> listener list) \<Rightarrow> state \<Rightarrow> room_event \<Rightarrow> user_id list
     \<Rightarrow> state option" where
  "on_new_room_event es iter s ev extra_users =
     (case map_of (sources es) ''room'' of
        None \<Rightarrow> None
      | Some src \<Rightarrow> Some (wake src s (iter (room_event_listeners s (room_id ev) extra_users))))"

text \<open>The snapshot of \<open>on_new_user_event\<close>, users first and rooms second.\<close>

definition user_event_listeners :: "state \<Rightarrow> user_id list \<Rightarrow> room list \<Rightarrow> listener set" where
  "user_event_listeners s users rs =
     fold (\<lambda>r ls. ls \<union> get_set (rooms_to_listeners s) r) rs
       (fold (\<lambda>u ls. ls \<union> get_set (user_to_listeners s) u) users {})"

text \<open>\<open>Notifier.on_new_user_event\<close>\<close>

definition on_new_user_event ::
  "event_sources \<Rightarrow> (listener set \<Rightarrow> listener list) \<Rightarrow> state \<Rightarrow> user_id list \<Rightarrow> room list
     \<Rightarrow> state option" where
  "on_new_user_event es iter s users rs =
     (case map_of (sources es) ''presence'' of
        None \<Rightarrow> None
      | Some src \<Rightarrow> Some (wake src s (iter (user_event_listeners s users rs))))"

text \<open>\<open>reactor.callLater(delay, self._timeout_listener, listener)\<close>\<close>

definition callLater :: "state \<Rightarrow> nat \<Rightarrow> listener \<Rightarrow> state" where
  "callLater s delay l = s\<lparr>timers := timers s @ [(delay, l)]\<rparr>"

text \<open>
  The first two lines of \<open>_get_events\<close>: \<open>if not from_token: from_token = yield
  self.event_sources.get_current_token()\<close>. The test is Python's truth test, so every falsy
  token is replaced by the current token: \<open>None\<close>, and the zero of the token type.
\<close>

definition starting_token :: "event_sources \<Rightarrow> token option \<Rightarrow> token" where
  "starting_token es ft =
     (case ft of
        None \<Rightarrow> get_current_token es
      | Some t \<Rightarrow> if t = 0 then get_current_token es else t)"

text \<open>The listener that \<open>_get_events\<close> constructs: a fresh object holding the arguments, with
  \<open>from_token\<close> as the lines above left it.\<close>

definition new_listener ::
  "event_sources \<Rightarrow> state \<Rightarrow> nat \<Rightarrow> user_id \<Rightarrow> room list \<Rightarrow> token option \<Rightarrow> nat \<Rightarrow> nat
     \<Rightarrow> listener" where
  "new_listener es s d u rs ft lim tmo =
     \<lparr>ident = next_listener s, user = u, rooms = rs,
      from_token = starting_token es ft,
      limit = lim, timeout = tmo, deferred = d, pending_notifications = []\<rparr>"

text \<open>
  \<open>Notifier._get_events\<close>, as the list of the states it passes through: after the listener
  is constructed; after the \<open>if timeout:\<close> block (timer armed, listener registered); after
  \<open>_check_for_updates\<close>; after the \<open>if not timeout:\<close> block.
\<close>

definition get_events_states ::
  "event_sources \<Rightarrow> state \<Rightarrow> nat \<Rightarrow> user_id \<Rightarrow> room list \<Rightarrow> token option \<Rightarrow> nat \<Rightarrow> nat
     \<Rightarrow> state list" where
  "get_events_states es s d u rs ft lim tmo =
     (let l = new_listener es s d u rs ft lim tmo;
          s1 = s\<lparr>next_listener := Suc (next_listener s)\<rparr>;
          s2 = (if tmo \<noteq> 0 then register_with_keys (callLater s1 (tmo div 1000) l) l else s1);
          s3 = check_for_updates es s2 l;
          s4 = (if tmo = 0 then timeout_listener s3 l else s3)
      in [s1, s2, s3, s4])"

definition get_events ::
  "event_sources \<Rightarrow> state \<Rightarrow> nat \<Rightarrow> user_id \<Rightarrow> room list \<Rightarrow> token option \<Rightarrow> nat \<Rightarrow> nat
     \<Rightarrow> state" where
  "get_events es s d u rs ft lim tmo = last (get_events_states es s d u rs ft lim tmo)"

text \<open>\<open>Notifier.get_events_for\<close>: make the Deferred, run \<open>_get_events\<close>, return the Deferred.
  The pagination config is its two fields read here, \<open>from_token\<close> and \<open>limit\<close>.\<close>

definition get_events_for ::
  "event_sources \<Rightarrow> state \<Rightarrow> user_id \<Rightarrow> room list \<Rightarrow> token option \<times> nat \<Rightarrow> nat
     \<Rightarrow> nat \<times> state" where
  "get_events_for es s u rs pagination_config tmo =
     (let d = next_deferred s;
          s0 = s\<lparr>next_deferred := Suc (next_deferred s)\<rparr>
      in (d, get_events es s0 d u rs (fst pagination_config) (snd pagination_config) tmo))"

subsection \<open>Auxiliary functions of the proofs\<close>

text \<open>The cursors handed to the sources, the events gathered and the cursor left at the end,
  each by its own recursion over the list of sources; \<open>poll_sources\<close> is shown to compute
  all three.\<close>

fun cursors :: "source list \<Rightarrow> user_id \<Rightarrow> nat \<Rightarrow> token \<Rightarrow> token list" where
  "cursors [] u lim tok = []"
| "cursors (src # rest) u lim tok = tok # cursors rest u lim (snd (src u tok lim))"

fun gathered :: "source list \<Rightarrow> user_id \<Rightarrow> nat \<Rightarrow> token \<Rightarrow> event list" where
  "gathered [] u lim tok = []"
| "gathered (src # rest) u lim tok = fst (src u tok lim) @ gathered rest u lim (snd (src u tok lim))"

fun final_cursor :: "source list \<Rightarrow> user_id \<Rightarrow> nat \<Rightarrow> token \<Rightarrow> token" where
  "final_cursor [] u lim tok = tok"
| "final_cursor (src # rest) u lim tok = final_cursor rest u lim (snd (src u tok lim))"

definition answer :: "source \<Rightarrow> listener \<Rightarrow> event list \<times> token" where
  "answer src l = src (user l) (from_token l) (limit l)"

subsection \<open>Well-formed states and runs\<close>

text \<open>
  The listeners a state refers to: those in an entry of either index and those of the pending
  timer calls. A state is well-formed when every such listener and its Deferred were
  allocated before the next free addresses, no two of them share a Deferred, the Deferred
  cells from the next free address on are empty, and a listener in the user index sits under
  its own user and is unresolved. A listener is settled when its Deferred has been called
  and it is in none of the entries that \<open>notify\<close> walks. A run applies the operations of the
  notifier, and lets a pending timer call fire, in any order.
\<close>

definition known :: "state \<Rightarrow> listener set" where
  "known s = (\<Union>k. get_set (rooms_to_listeners s) k) \<union> (\<Union>k. get_set (user_to_listeners s) k)
             \<union> snd ` set (timers s)"

definition wf :: "state \<Rightarrow> bool" where
  "wf s \<longleftrightarrow>
     (\<forall>l \<in> known s. ident l < next_listener s \<and> deferred l < next_deferred s)
     \<and> inj_on deferred (known s)
     \<and> (\<forall>d. next_deferred s \<le> d \<longrightarrow> deferreds s d = None)
     \<and> (\<forall>k. \<forall>l \<in> get_set (user_to_listeners s) k. user l = k \<and> deferreds s (deferred l) = None)"

definition settled :: "state \<Rightarrow> listener \<Rightarrow> bool" where
  "settled s l \<longleftrightarrow>
     deferreds s (deferred l) \<noteq> None
     \<and> l \<notin> get_set (user_to_listeners s) (user l)
     \<and> (\<forall>r \<in> set (rooms l). l \<notin> get_set (rooms_to_listeners s) r)"

inductive reaches :: "state \<Rightarrow> state \<Rightarrow> bool" for s0 :: state where
  start: "reaches s0 s0"
| request: "reaches s0 s \<Longrightarrow> reaches s0 (snd (get_events_for es s u rs pc tmo))"
| join: "reaches s0 s \<Longrightarrow> reaches s0 (user_joined_room s u rid)"
| room_event:
    "reaches s0 s \<Longrightarrow>
     set (iter (room_event_listeners s (room_id ev) extra_users))
       \<subseteq> room_event_listeners s (room_id ev) extra_users \<Longrightarrow>
     on_new_room_event es iter s ev extra_users = Some s' \<Longrightarrow> reaches s0 s'"
| user_event:
    "reaches s0 s \<Longrightarrow>
     set (iter (user_event_listeners s users rs)) \<subseteq> user_event_listeners s users rs \<Longrightarrow>
     on_new_user_event es iter s users rs = Some s' \<Longrightarrow> reaches s0 s'"
| deadline:
    "reaches s0 s \<Longrightarrow> (delay, l) \<in> set (timers s) \<Longrightarrow> reaches s0 (timeout_listener s l)"

subsection \<open>Concrete listeners, sources and states\<close>

text \<open>Two listeners, two sources and the aggregates built from them, for the concrete
  runs below.\<close>

definition alice :: listener where
  "alice = \<lparr>ident = 0, user = ''@alice'', rooms = [''!r1''], from_token = 3, limit = 10,
            timeout = 5000, deferred = 0, pending_notifications = []\<rparr>"

definition bob :: listener where
  "bob = \<lparr>ident = 1, user = ''@bob'', rooms = [''!r1''], from_token = 4, limit = 10,
          timeout = 5000, deferred = 1, pending_notifications = []\<rparr>"

definition no_events :: source where
  "no_events u tok lim = ([], tok)"

definition two_events :: source where
  "two_events u tok lim = ([''e1'', ''e2''], tok + 2)"

definition quiet :: event_sources where
  "quiet = \<lparr>sources = [(''room'', no_events), (''presence'', no_events)],
            get_current_token = 7\<rparr>"

definition busy :: event_sources where
  "busy = \<lparr>sources = [(''room'', two_events), (''presence'', no_events)],
           get_current_token = 7\<rparr>"

text \<open>Both listeners registered, nothing else.\<close>

definition both_waiting :: state where
  "both_waiting = register_with_keys (register_with_keys init alice) bob"

definition not_for_bob :: source where
  "not_for_bob u tok lim = (if u = ''@bob'' then ([], tok) else ([''e1''], tok + 1))"

definition selective :: event_sources where
  "selective = \<lparr>sources = [(''room'', not_for_bob), (''presence'', no_events)],
                get_current_token = 7\<rparr>"

definition carol :: listener where
  "carol = \<lparr>ident = 2, user = ''@carol'', rooms = [''!r3''], from_token = 5, limit = 10,
            timeout = 5000, deferred = 2, pending_notifications = []\<rparr>"

text \<open>All three listeners registered, nothing else.\<close>

definition three_waiting :: state where
  "three_waiting = register_with_keys both_waiting carol"

definition waiting :: state where
  "waiting = snd (get_events_for quiet init ''@alice'' [''!r1''] (Some 3, 10) 5000)"

definition joined :: state where
  "joined = user_joined_room waiting ''@alice'' ''!r2''"

definition r1_event :: room_event where
  "r1_event = \<lparr>room_id = ''!r1'', event_id = ''e1''\<rparr>"

definition r2_event :: room_event where
  "r2_event = \<lparr>room_id = ''!r2'', event_id = ''e1''\<rparr>"

section \<open>Properties\<close>

subsection \<open>Dictionary-of-sets primitives and \<open>notify\<close>, field by field\<close>

lemma starting_token_simps [simp]:
  "starting_token es None = get_current_token es"
  "starting_token es (Some 0) = get_current_token es"
  "t \<noteq> 0 \<Longrightarrow> starting_token es (Some t) = t"
  by (simp_all add: starting_token_def)

text \<open>A falsy token and no token are the same call.\<close>

lemma new_listener_falsy:
  "new_listener es s d u rs (Some 0) lim tmo = new_listener es s d u rs None lim tmo"
  by (simp add: new_listener_def)

lemma discard_at_apply:
  "discard_at d k x k' = (if k' = k then map_option (\<lambda>S. S - {x}) (d k) else d k')"
  by (simp add: discard_at_def split: option.splits)

lemma fold_discard_apply:
  "fold (\<lambda>r d. discard_at d r x) rs d k =
     (if k \<in> set rs then map_option (\<lambda>S. S - {x}) (d k) else d k)"
proof (induction rs arbitrary: d)
  case Nil
  show ?case by simp
next
  case (Cons r rs)
  have "fold (\<lambda>r d. discard_at d r x) (r # rs) d k =
        fold (\<lambda>r d. discard_at d r x) rs (discard_at d r x) k"
    by simp
  also have "\<dots> = (if k \<in> set rs then map_option (\<lambda>S. S - {x}) (discard_at d r x k)
                   else discard_at d r x k)"
    by (rule Cons.IH)
  also have "\<dots> = (if k \<in> set (r # rs) then map_option (\<lambda>S. S - {x}) (d k) else d k)"
    by (auto simp add: discard_at_apply option.map_comp comp_def)
  finally show ?case .
qed

lemma add_at_apply:
  "add_at d k x k' = (if k' = k then Some (insert x (get_set d k)) else d k')"
  by (simp add: add_at_def)

lemma get_set_add_at:
  "get_set (add_at d k x) k' = (if k' = k then insert x (get_set d k) else get_set d k')"
  by (simp add: add_at_def get_set_def)

lemma get_set_fold_add:
  "get_set (fold (\<lambda>r d. add_at d r x) rs d) k =
     (if k \<in> set rs then insert x (get_set d k) else get_set d k)"
proof (induction rs arbitrary: d)
  case Nil
  show ?case by simp
next
  case (Cons r rs)
  show ?case
    by (auto simp add: Cons.IH get_set_add_at)
qed

lemma get_set_discard_at:
  "get_set (discard_at d k x) k' = (if k' = k then get_set d k - {x} else get_set d k')"
  by (simp add: discard_at_apply get_set_def split: option.splits)

lemma get_set_fold_discard:
  "get_set (fold (\<lambda>r d. discard_at d r x) rs d) k =
     (if k \<in> set rs then get_set d k - {x} else get_set d k)"
  by (simp add: fold_discard_apply get_set_def split: option.splits)

lemma deferreds_notify:
  "deferreds (notify s l evs a b) =
     (case deferreds s (deferred l) of
        None \<Rightarrow> (deferreds s)(deferred l \<mapsto> (evs, (a, b)))
      | Some _ \<Rightarrow> deferreds s)"
  by (simp add: notify_def callback_def Let_def split: option.splits)

lemma rooms_notify:
  "rooms_to_listeners (notify s l evs a b) =
     fold (\<lambda>r d. discard_at d r l) (rooms l) (rooms_to_listeners s)"
  by (simp add: notify_def callback_def Let_def split: option.splits)

lemma users_notify:
  "user_to_listeners (notify s l evs a b) = discard_at (user_to_listeners s) (user l) l"
  by (simp add: notify_def callback_def Let_def split: option.splits)

lemma rest_notify:
  "timers (notify s l evs a b) = timers s"
  "next_deferred (notify s l evs a b) = next_deferred s"
  "next_listener (notify s l evs a b) = next_listener s"
  "state.more (notify s l evs a b) = state.more s"
  by (simp_all add: notify_def callback_def Let_def split: option.splits)

lemma fold_discard_idem:
  "fold (\<lambda>r d. discard_at d r x) rs (fold (\<lambda>r d. discard_at d r x) rs d) =
     fold (\<lambda>r d. discard_at d r x) rs d"
  by (rule ext) (simp add: fold_discard_apply option.map_comp comp_def)

lemma discard_at_idem: "discard_at (discard_at d k x) k x = discard_at d k x"
  by (rule ext) (simp add: discard_at_apply option.map_comp comp_def)

lemma notify_notify:
  "notify (notify s l evs a b) l evs' a' b' = notify s l evs a b"
  by (rule state.equality)
    (simp_all add: deferreds_notify rooms_notify users_notify rest_notify
       fold_discard_idem discard_at_idem split: option.splits)


subsection \<open>The loop over the sources\<close>

lemma poll_sources_eq:
  "poll_sources srcs u lim tok events log =
     (events @ gathered srcs u lim tok, final_cursor srcs u lim tok, log @ cursors srcs u lim tok)"
  by (induction srcs arbitrary: tok events log) (simp_all split: prod.splits)

lemma length_cursors: "length (cursors srcs u lim tok) = length srcs"
  by (induction srcs arbitrary: tok) simp_all

lemma cursors_Nil: "cursors srcs u lim tok = [] \<longleftrightarrow> srcs = []"
  by (cases srcs) simp_all

lemma cursors_chain:
  "Suc i < length srcs \<Longrightarrow>
     cursors srcs u lim tok ! Suc i = snd ((srcs ! i) u (cursors srcs u lim tok ! i) lim)"
proof (induction srcs arbitrary: tok i)
  case Nil
  then show ?case by simp
next
  case (Cons src rest)
  show ?case
  proof (cases i)
    case 0
    with Cons.prems obtain src' rest' where "rest = src' # rest'"
      by (cases rest) auto
    with 0 show ?thesis by simp
  next
    case (Suc j)
    with Cons.prems have "Suc j < length rest" by simp
    from Cons.IH [OF this] Suc show ?thesis by simp
  qed
qed

lemma gathered_concat:
  "gathered srcs u lim tok =
     concat (map (\<lambda>i. fst ((srcs ! i) u (cursors srcs u lim tok ! i) lim)) [0..<length srcs])"
proof (induction srcs arbitrary: tok)
  case Nil
  show ?case by simp
next
  case (Cons src rest)
  have shift: "[0..<length (src # rest)] = 0 # map Suc [0..<length rest]"
    by (simp add: upt_conv_Cons map_Suc_upt del: upt_Suc)
  show ?case
    by (simp only: shift) (simp add: Cons.IH comp_def)
qed

lemma final_cursor_last:
  "srcs \<noteq> [] \<Longrightarrow>
     final_cursor srcs u lim tok = snd (last srcs u (last (cursors srcs u lim tok)) lim)"
proof (induction srcs arbitrary: tok)
  case Nil
  then show ?case by simp
next
  case (Cons src rest)
  show ?case
  proof (cases "rest = []")
    case True
    then show ?thesis by simp
  next
    case False
    from Cons.IH [OF False] False show ?thesis
      by (simp add: cursors_Nil)
  qed
qed


subsection \<open>The operations, field by field\<close>

lemma register_fields:
  "get_set (rooms_to_listeners (register_with_keys s l)) k =
     (if k \<in> set (rooms l) then insert l (get_set (rooms_to_listeners s) k)
      else get_set (rooms_to_listeners s) k)"
  "get_set (user_to_listeners (register_with_keys s l)) k =
     (if k = user l then insert l (get_set (user_to_listeners s) k)
      else get_set (user_to_listeners s) k)"
  "deferreds (register_with_keys s l) = deferreds s"
  "timers (register_with_keys s l) = timers s"
  "next_deferred (register_with_keys s l) = next_deferred s"
  "next_listener (register_with_keys s l) = next_listener s"
  by (simp_all add: register_with_keys_def Let_def get_set_fold_add get_set_add_at)

lemma get_set_notify:
  "get_set (rooms_to_listeners (notify s l evs a b)) k =
     (if k \<in> set (rooms l) then get_set (rooms_to_listeners s) k - {l}
      else get_set (rooms_to_listeners s) k)"
  "get_set (user_to_listeners (notify s l evs a b)) k =
     (if k = user l then get_set (user_to_listeners s) k - {l}
      else get_set (user_to_listeners s) k)"
  by (simp_all add: rooms_notify users_notify get_set_fold_discard get_set_discard_at)

lemma check_for_updates_eq:
  "check_for_updates es s l =
     (if gathered (map snd (sources es)) (user l) (limit l) (from_token l) \<noteq> []
      then notify s l (gathered (map snd (sources es)) (user l) (limit l) (from_token l))
             (from_token l) (final_cursor (map snd (sources es)) (user l) (limit l) (from_token l))
      else s)"
  by (simp add: check_for_updates_def poll_sources_eq)

lemma new_listener_fields:
  "user (new_listener es s d u rs ft lim tmo) = u"
  "rooms (new_listener es s d u rs ft lim tmo) = rs"
  "from_token (new_listener es s d u rs ft lim tmo) = starting_token es ft"
  "limit (new_listener es s d u rs ft lim tmo) = lim"
  "deferred (new_listener es s d u rs ft lim tmo) = d"
  "ident (new_listener es s d u rs ft lim tmo) = next_listener s"
  by (simp_all add: new_listener_def)

lemma new_listener_next_deferred:
  "new_listener es (s\<lparr>next_deferred := n\<rparr>) d u rs ft lim tmo = new_listener es s d u rs ft lim tmo"
  by (simp add: new_listener_def)

text \<open>The four states of a call with a zero timeout, and of one with a non-zero timeout.\<close>

lemma get_events_states_zero:
  "get_events_states es s d u rs ft lim 0 =
     (let l = new_listener es s d u rs ft lim 0;
          s1 = s\<lparr>next_listener := Suc (next_listener s)\<rparr>
      in [s1, s1, check_for_updates es s1 l, timeout_listener (check_for_updates es s1 l) l])"
  by (simp add: get_events_states_def Let_def)

lemma get_events_states_wait:
  "tmo \<noteq> 0 \<Longrightarrow> get_events_states es s d u rs ft lim tmo =
     (let l = new_listener es s d u rs ft lim tmo;
          s1 = s\<lparr>next_listener := Suc (next_listener s)\<rparr>;
          s2 = register_with_keys (callLater s1 (tmo div 1000) l) l
      in [s1, s2, check_for_updates es s2 l, check_for_updates es s2 l])"
  by (simp add: get_events_states_def Let_def)

subsection \<open>The loop over a snapshot of listeners\<close>

lemma wake_rooms:
  "get_set (rooms_to_listeners (wake src s ls)) k =
     get_set (rooms_to_listeners s) k
       - {l \<in> set ls. k \<in> set (rooms l) \<and> fst (answer src l) \<noteq> []}"
proof (induction ls arbitrary: s)
  case Nil
  show ?case by simp
next
  case (Cons l ls)
  show ?case
    by (cases "src (user l) (from_token l) (limit l)")
      (auto simp add: Cons.IH answer_def rooms_notify get_set_fold_discard)
qed

lemma wake_users:
  "get_set (user_to_listeners (wake src s ls)) k =
     get_set (user_to_listeners s) k
       - {l \<in> set ls. k = user l \<and> fst (answer src l) \<noteq> []}"
proof (induction ls arbitrary: s)
  case Nil
  show ?case by simp
next
  case (Cons l ls)
  show ?case
    by (cases "src (user l) (from_token l) (limit l)")
      (auto simp add: Cons.IH answer_def users_notify get_set_discard_at)
qed

lemma wake_deferreds:
  "deferreds (wake src s ls) d =
     (case deferreds s d of
        Some r \<Rightarrow> Some r
      | None \<Rightarrow>
          (case find (\<lambda>l. deferred l = d \<and> fst (answer src l) \<noteq> []) ls of
             None \<Rightarrow> None
           | Some l \<Rightarrow> Some (fst (answer src l), (from_token l, snd (answer src l)))))"
proof (induction ls arbitrary: s)
  case Nil
  show ?case by (simp split: option.splits)
next
  case (Cons l ls)
  show ?case
    by (cases "src (user l) (from_token l) (limit l)")
      (auto simp add: Cons.IH answer_def deferreds_notify split: option.splits)
qed

lemma find_unique:
  assumes "l \<in> set ls" and "\<forall>l' \<in> set ls. deferred l' = deferred l \<longrightarrow> l' = l"
  shows "find (\<lambda>l'. deferred l' = deferred l \<and> P l') ls = (if P l then Some l else None)"
proof (cases "P l")
  case True
  with assms show ?thesis by (induction ls) auto
next
  case False
  with assms(2) have "find (\<lambda>l'. deferred l' = deferred l \<and> P l') ls = None"
    by (auto simp add: find_None_iff)
  with False show ?thesis by simp
qed

lemma room_event_listeners_union:
  "room_event_listeners s rid extra_users =
     get_set (rooms_to_listeners s) rid \<union> (\<Union>u \<in> set extra_users. get_set (user_to_listeners s) u)"
proof -
  have "fold (\<lambda>u ls. ls \<union> get_set (user_to_listeners s) u) us L
          = L \<union> (\<Union>u \<in> set us. get_set (user_to_listeners s) u)" for us L
    by (induction us arbitrary: L) auto
  then show ?thesis by (simp add: room_event_listeners_def)
qed

subsection \<open>The concrete states, evaluated\<close>

lemma waiting_eq:
  "waiting = \<lparr>rooms_to_listeners = [''!r1'' \<mapsto> {alice}], user_to_listeners = [''@alice'' \<mapsto> {alice}],
              deferreds = Map.empty, timers = [(5, alice)], next_deferred = 1, next_listener = 1\<rparr>"
  by (simp add: waiting_def get_events_for_def get_events_def get_events_states_def Let_def
      new_listener_def init_def quiet_def no_events_def check_for_updates_def callLater_def
      register_with_keys_def add_at_def get_set_def alice_def)

lemma joined_eq:
  "joined = \<lparr>rooms_to_listeners = [''!r1'' \<mapsto> {alice}, ''!r2'' \<mapsto> {alice}],
             user_to_listeners = [''@alice'' \<mapsto> {alice}],
             deferreds = Map.empty, timers = [(5, alice)], next_deferred = 1, next_listener = 1\<rparr>"
  by (simp add: joined_def waiting_eq user_joined_room_def get_set_def Let_def)

lemma alice_fields:
  "user alice = ''@alice''" "rooms alice = [''!r1'']" "from_token alice = 3" "limit alice = 10"
  "deferred alice = 0" "ident alice = 0"
  by (simp_all add: alice_def)

lemma bob_fields:
  "user bob = ''@bob''" "rooms bob = [''!r1'']" "from_token bob = 4" "limit bob = 10"
  "deferred bob = 1" "ident bob = 1"
  by (simp_all add: bob_def)

lemma busy_poll:
  "poll_sources (map snd (sources busy)) ''@alice'' 10 3 [] [] = ([''e1'', ''e2''], 5, [3, 5])"
  by (simp add: busy_def two_events_def no_events_def)


lemma init_fields:
  "deferreds init = Map.empty" "next_deferred init = 0" "next_listener init = 0"
  "rooms_to_listeners init = Map.empty" "user_to_listeners init = Map.empty" "timers init = []"
  by (simp_all add: init_def)

lemma get_set_init:
  "get_set (rooms_to_listeners init) k = {}" "get_set (user_to_listeners init) k = {}"
  by (simp_all add: init_def get_set_def)

lemma both_waiting_fields:
  "get_set (rooms_to_listeners both_waiting) k = (if k = ''!r1'' then {alice, bob} else {})"
  "get_set (user_to_listeners both_waiting) k
     = (if k = ''@alice'' then {alice} else if k = ''@bob'' then {bob} else {})"
  by (auto simp add: both_waiting_def register_fields alice_fields bob_fields get_set_init)

lemma both_waiting_deferreds: "deferreds both_waiting = Map.empty"
  by (simp add: both_waiting_def register_fields init_def)

lemma alice_bob: "alice \<noteq> bob" "bob \<noteq> alice"
  by (simp_all add: alice_def bob_def)

subsection \<open>Every run keeps the state well-formed\<close>

lemma known_notify: "known (notify s l evs a b) \<subseteq> known s"
  by (auto simp add: known_def get_set_notify rest_notify split: if_splits)

lemma wf_notify:
  assumes "wf s" and "deferred l < next_deferred s"
    and "\<forall>l' \<in> known s. deferred l' = deferred l \<longrightarrow> l' = l"
  shows "wf (notify s l evs a b)"
proof -
  let ?s' = "notify s l evs a b"
  note sub = known_notify [of s l evs a b]
  have 1: "\<forall>l' \<in> known ?s'. ident l' < next_listener ?s' \<and> deferred l' < next_deferred ?s'"
    using assms(1) sub by (auto simp add: wf_def rest_notify)
  have 2: "inj_on deferred (known ?s')"
    using assms(1) sub by (auto simp add: wf_def intro: inj_on_subset)
  have 3: "\<forall>d. next_deferred ?s' \<le> d \<longrightarrow> deferreds ?s' d = None"
    using assms(1,2) by (auto simp add: wf_def rest_notify deferreds_notify split: option.splits)
  have 4: "\<forall>k. \<forall>l' \<in> get_set (user_to_listeners ?s') k.
      user l' = k \<and> deferreds ?s' (deferred l') = None"
  proof (intro allI ballI)
    fix k l'
    assume in': "l' \<in> get_set (user_to_listeners ?s') k"
    then have in0: "l' \<in> get_set (user_to_listeners s) k" and ne: "l' \<noteq> l"
      using assms(1) by (auto simp add: get_set_notify wf_def split: if_splits)
    from in0 have "l' \<in> known s" by (auto simp add: known_def)
    with assms(3) ne have "deferred l' \<noteq> deferred l" by blast
    with in0 assms(1) show "user l' = k \<and> deferreds ?s' (deferred l') = None"
      by (auto simp add: wf_def deferreds_notify split: option.splits)
  qed
  from 1 2 3 4 show ?thesis by (simp add: wf_def)
qed

lemma wf_notify_known: "wf s \<Longrightarrow> l \<in> known s \<Longrightarrow> wf (notify s l evs a b)"
  by (rule wf_notify) (auto simp add: wf_def dest: inj_onD)

lemma known_wake: "known (wake src s ls) \<subseteq> known s"
proof (induction ls arbitrary: s)
  case Nil
  show ?case by simp
next
  case (Cons l ls)
  show ?case
    using Cons.IH known_notify by (cases "src (user l) (from_token l) (limit l)") (auto, blast)
qed

lemma wf_wake_gen:
  assumes "wf s"
    and "\<forall>l \<in> set ls. deferred l < next_deferred s
           \<and> (\<forall>l' \<in> known s. deferred l' = deferred l \<longrightarrow> l' = l)"
  shows "wf (wake src s ls)"
  using assms
proof (induction ls arbitrary: s)
  case Nil
  then show ?case by simp
next
  case (Cons l ls)
  obtain events end_token where q: "src (user l) (from_token l) (limit l) = (events, end_token)"
    by (cases "src (user l) (from_token l) (limit l)")
  show ?case
  proof (cases "events = []")
    case True
    with q Cons show ?thesis by simp
  next
    case False
    let ?s1 = "notify s l events (from_token l) end_token"
    from Cons.prems have wf1: "wf ?s1"
      by (simp add: wf_notify)
    have rest: "\<forall>l \<in> set ls. deferred l < next_deferred ?s1
           \<and> (\<forall>l' \<in> known ?s1. deferred l' = deferred l \<longrightarrow> l' = l)"
      using Cons.prems(2) known_notify [of s l events "from_token l" end_token]
      by (auto simp add: rest_notify)
    from Cons.IH [OF wf1 rest] q False show ?thesis by simp
  qed
qed

lemma wf_wake: "wf s \<Longrightarrow> set ls \<subseteq> known s \<Longrightarrow> wf (wake src s ls)"
  by (rule wf_wake_gen) (auto simp add: wf_def dest: inj_onD)

lemma get_set_user_joined_room:
  "get_set (rooms_to_listeners (user_joined_room s u rid)) k =
     (if k = rid then get_set (rooms_to_listeners s) rid \<union> get_set (user_to_listeners s) u
      else get_set (rooms_to_listeners s) k)"
  "user_to_listeners (user_joined_room s u rid) = user_to_listeners s"
  "deferreds (user_joined_room s u rid) = deferreds s"
  "timers (user_joined_room s u rid) = timers s"
  "next_deferred (user_joined_room s u rid) = next_deferred s"
  "next_listener (user_joined_room s u rid) = next_listener s"
  by (simp_all add: user_joined_room_def Let_def get_set_def)

lemma known_user_joined_room: "known (user_joined_room s u rid) = known s"
  by (auto simp add: known_def get_set_user_joined_room split: if_splits)

lemma wf_user_joined_room: "wf s \<Longrightarrow> wf (user_joined_room s u rid)"
  by (simp add: wf_def known_user_joined_room get_set_user_joined_room)

lemma room_event_listeners_known: "room_event_listeners s rid extra_users \<subseteq> known s"
  by (auto simp add: room_event_listeners_union known_def)

lemma user_event_listeners_union:
  "user_event_listeners s users rs =
     (\<Union>u \<in> set users. get_set (user_to_listeners s) u)
       \<union> (\<Union>r \<in> set rs. get_set (rooms_to_listeners s) r)"
proof -
  have u: "fold (\<lambda>u ls. ls \<union> get_set (user_to_listeners s) u) us L
          = L \<union> (\<Union>u \<in> set us. get_set (user_to_listeners s) u)" for us L
    by (induction us arbitrary: L) auto
  have r: "fold (\<lambda>r ls. ls \<union> get_set (rooms_to_listeners s) r) rs' L
          = L \<union> (\<Union>r \<in> set rs'. get_set (rooms_to_listeners s) r)" for rs' L
    by (induction rs' arbitrary: L) auto
  show ?thesis by (simp add: user_event_listeners_def u r)
qed

lemma user_event_listeners_known: "user_event_listeners s users rs \<subseteq> known s"
  by (auto simp add: user_event_listeners_union known_def)

lemma in_known:
  "x \<in> known s \<longleftrightarrow>
     (\<exists>k. x \<in> get_set (rooms_to_listeners s) k) \<or> (\<exists>k. x \<in> get_set (user_to_listeners s) k)
     \<or> x \<in> snd ` set (timers s)"
  by (simp add: known_def)

lemma known_register:
  "known (register_with_keys s l) = insert l (known s)"
proof (rule set_eqI)
  fix x
  let ?s' = "register_with_keys s l"
  have r1: "x \<in> get_set (rooms_to_listeners ?s') k \<Longrightarrow> x = l \<or> x \<in> get_set (rooms_to_listeners s) k" for k
    by (simp add: register_fields split: if_splits)
  have r2: "x \<in> get_set (rooms_to_listeners s) k \<Longrightarrow> x \<in> get_set (rooms_to_listeners ?s') k" for k
    by (auto simp add: register_fields)
  have u1: "x \<in> get_set (user_to_listeners ?s') k \<Longrightarrow> x = l \<or> x \<in> get_set (user_to_listeners s) k" for k
    by (simp add: register_fields split: if_splits)
  have u2: "x \<in> get_set (user_to_listeners s) k \<Longrightarrow> x \<in> get_set (user_to_listeners ?s') k" for k
    by (auto simp add: register_fields)
  have u3: "l \<in> get_set (user_to_listeners ?s') (user l)"
    by (simp add: register_fields)
  have t: "timers ?s' = timers s"
    by (simp add: register_fields)
  show "x \<in> known ?s' \<longleftrightarrow> x \<in> insert l (known s)"
  proof
    assume "x \<in> known ?s'"
    then show "x \<in> insert l (known s)"
      unfolding in_known t insert_iff using r1 u1 by meson
  next
    assume "x \<in> insert l (known s)"
    then show "x \<in> known ?s'"
      unfolding in_known t insert_iff using r2 u2 u3 by meson
  qed
qed

lemma wf_timeout_listener: "wf s \<Longrightarrow> l \<in> known s \<Longrightarrow> wf (timeout_listener s l)"
  by (simp add: timeout_listener_def wf_notify_known)

lemma wf_get_events_for:
  assumes "wf s"
  shows "wf (snd (get_events_for es s u rs pc tmo))"
proof -
  let ?d = "next_deferred s"
  let ?l = "new_listener es s ?d u rs (fst pc) (snd pc) tmo"
  let ?s1 = "s\<lparr>next_deferred := Suc (next_deferred s), next_listener := Suc (next_listener s)\<rparr>"
  have k1: "known ?s1 = known s" by (simp add: known_def)
  have wf1: "wf ?s1"
    using assms by (auto simp add: wf_def k1)
  have lf: "deferred ?l = ?d" "ident ?l = next_listener s" "user ?l = u"
    by (simp_all add: new_listener_fields)
  have other: "\<forall>l' \<in> known s. deferred l' \<noteq> deferred ?l"
    using assms by (auto simp add: wf_def lf)
  show ?thesis
  proof (cases "tmo = 0")
    case True
    have uniq: "\<forall>l' \<in> known ?s1. deferred l' = deferred ?l \<longrightarrow> l' = ?l"
      using other by (simp add: k1)
    have below: "deferred ?l < next_deferred ?s1" by (simp add: lf)
    have c: "wf (check_for_updates es ?s1 ?l)"
      by (simp add: check_for_updates_eq wf1 wf_notify [OF wf1 below uniq])
    have "known (check_for_updates es ?s1 ?l) \<subseteq> known ?s1"
      by (simp add: check_for_updates_eq known_notify)
    with uniq have uniq': "\<forall>l' \<in> known (check_for_updates es ?s1 ?l). deferred l' = deferred ?l \<longrightarrow> l' = ?l"
      by blast
    have below': "deferred ?l < next_deferred (check_for_updates es ?s1 ?l)"
      by (simp add: check_for_updates_eq rest_notify lf)
    have "wf (timeout_listener (check_for_updates es ?s1 ?l) ?l)"
      unfolding timeout_listener_def by (rule wf_notify [OF c below' uniq'])
    with True show ?thesis
      by (simp add: get_events_for_def get_events_def get_events_states_zero Let_def
          new_listener_next_deferred)
  next
    case False
    let ?s2 = "register_with_keys (callLater ?s1 (tmo div 1000) ?l) ?l"
    have "known (callLater ?s1 (tmo div 1000) ?l) = insert ?l (known s)"
      by (auto simp add: known_def callLater_def)
    then have k2: "known ?s2 = insert ?l (known s)"
      by (simp add: known_register)
    have wf2: "wf ?s2"
      unfolding wf_def k2 using assms other
      by (auto simp add: wf_def register_fields callLater_def lf split: if_splits)
    have "?l \<in> known ?s2" by (simp add: k2)
    with wf2 have "wf (check_for_updates es ?s2 ?l)"
      by (simp add: check_for_updates_eq wf_notify_known)
    with False show ?thesis
      by (simp add: get_events_for_def get_events_def get_events_states_wait Let_def
          new_listener_next_deferred)
  qed
qed

lemma wf_init: "wf init"
  by (simp add: wf_def known_def init_def get_set_def)

lemma reaches_wf: "reaches s0 s \<Longrightarrow> wf s0 \<Longrightarrow> wf s"
proof (induction rule: reaches.induct)
  case start
  then show ?case .
next
  case (request s es u rs pc tmo)
  then show ?case by (simp add: wf_get_events_for)
next
  case (join s u rid)
  then show ?case by (simp add: wf_user_joined_room)
next
  case (room_event s iter ev extra_users es s')
  from room_event.hyps(2) room_event_listeners_known
  have "set (iter (room_event_listeners s (room_id ev) extra_users)) \<subseteq> known s" by blast
  with room_event show ?case
    by (auto simp add: on_new_room_event_def wf_wake split: option.splits)
next
  case (user_event s iter users rs es s')
  from user_event.hyps(2) user_event_listeners_known
  have "set (iter (user_event_listeners s users rs)) \<subseteq> known s" by blast
  with user_event show ?case
    by (auto simp add: on_new_user_event_def wf_wake split: option.splits)
next
  case (deadline s delay l)
  then have "l \<in> known s" by (force simp add: known_def)
  with deadline show ?case by (simp add: wf_timeout_listener)
qed

subsection \<open>A settled listener stays settled\<close>

lemma cell_kept_notify:
  "deferreds s d = Some r \<Longrightarrow> deferreds (notify s l evs a b) d = Some r"
  by (auto simp add: deferreds_notify split: option.splits)

lemma cell_kept_wake:
  "deferreds s d = Some r \<Longrightarrow> deferreds (wake src s ls) d = Some r"
  by (simp add: wake_deferreds)

lemma cell_kept_get_events_for:
  assumes "deferreds s d = Some r"
  shows "deferreds (snd (get_events_for es s u rs pc tmo)) d = Some r"
proof (cases "tmo = 0")
  case True
  with assms show ?thesis
    by (simp add: get_events_for_def get_events_def get_events_states_zero Let_def
        check_for_updates_eq timeout_listener_def cell_kept_notify)
next
  case False
  with assms show ?thesis
    by (simp add: get_events_for_def get_events_def get_events_states_wait Let_def
        check_for_updates_eq cell_kept_notify register_fields callLater_def)
qed

lemma reaches_cell:
  "reaches s0 s \<Longrightarrow> deferreds s0 d = Some r \<Longrightarrow> deferreds s d = Some r"
proof (induction rule: reaches.induct)
  case start
  then show ?case .
next
  case (request s es u rs pc tmo)
  then show ?case by (simp add: cell_kept_get_events_for)
next
  case (join s u rid)
  then show ?case by (simp add: get_set_user_joined_room)
next
  case (room_event s iter ev extra_users es s')
  then show ?case
    by (auto simp add: on_new_room_event_def cell_kept_wake split: option.splits)
next
  case (user_event s iter users rs es s')
  then show ?case
    by (auto simp add: on_new_user_event_def cell_kept_wake split: option.splits)
next
  case (deadline s delay l)
  then show ?case by (simp add: timeout_listener_def cell_kept_notify)
qed

lemma notify_settles: "settled (notify s l evs a b) l"
  by (simp add: settled_def deferreds_notify get_set_notify split: option.splits)

lemma settled_noop:
  assumes "settled s l"
  shows "notify s l evs a b = s"
proof (rule state.equality)
  from assms obtain r where "deferreds s (deferred l) = Some r"
    by (auto simp add: settled_def)
  then show "deferreds (notify s l evs a b) = deferreds s"
    by (simp add: deferreds_notify)
  show "rooms_to_listeners (notify s l evs a b) = rooms_to_listeners s"
  proof (rule ext)
    fix k
    show "rooms_to_listeners (notify s l evs a b) k = rooms_to_listeners s k"
      using assms
      by (cases "rooms_to_listeners s k")
        (auto simp add: rooms_notify fold_discard_apply settled_def get_set_def)
  qed
  show "user_to_listeners (notify s l evs a b) = user_to_listeners s"
  proof (rule ext)
    fix k
    show "user_to_listeners (notify s l evs a b) k = user_to_listeners s k"
      using assms
      by (cases "user_to_listeners s k")
        (auto simp add: users_notify discard_at_apply settled_def get_set_def)
  qed
qed (simp_all add: rest_notify)

lemma settled_notify: "settled s l \<Longrightarrow> settled (notify s l' evs a b) l"
  by (auto simp add: settled_def get_set_notify deferreds_notify split: option.splits if_splits)

lemma settled_wake: "settled s l \<Longrightarrow> settled (wake src s ls) l"
proof (induction ls arbitrary: s)
  case Nil
  then show ?case by simp
next
  case (Cons l' ls)
  then show ?case
    by (cases "src (user l') (from_token l') (limit l')") (simp add: settled_notify)
qed

lemma settled_user_joined_room:
  assumes "wf s" and "settled s l"
  shows "settled (user_joined_room s u rid) l"
proof -
  from assms have "l \<notin> get_set (user_to_listeners s) u"
    by (auto simp add: wf_def settled_def)
  with assms(2) show ?thesis
    by (simp add: settled_def get_set_user_joined_room)
qed

lemma settled_get_events_for:
  assumes "settled s l" and "ident l < next_listener s"
  shows "settled (snd (get_events_for es s u rs pc tmo)) l"
proof -
  let ?l0 = "new_listener es s (next_deferred s) u rs (fst pc) (snd pc) tmo"
  let ?s1 = "s\<lparr>next_deferred := Suc (next_deferred s), next_listener := Suc (next_listener s)\<rparr>"
  from assms(2) have ne: "l \<noteq> ?l0"
    by (auto simp add: new_listener_def)
  from assms(1) have s1: "settled ?s1 l"
    by (simp add: settled_def)
  show ?thesis
  proof (cases "tmo = 0")
    case True
    with s1 show ?thesis
      by (simp add: get_events_for_def get_events_def get_events_states_zero Let_def
          new_listener_next_deferred check_for_updates_eq timeout_listener_def settled_notify)
  next
    case False
    from s1 ne have "settled (register_with_keys (callLater ?s1 (tmo div 1000) ?l0) ?l0) l"
      by (auto simp add: settled_def register_fields callLater_def)
    with False show ?thesis
      by (simp add: get_events_for_def get_events_def get_events_states_wait Let_def
          new_listener_next_deferred check_for_updates_eq settled_notify)
  qed
qed

lemma next_listener_get_events_for:
  "next_listener (snd (get_events_for es s u rs pc tmo)) = Suc (next_listener s)"
  by (cases "tmo = 0")
    (simp_all add: get_events_for_def get_events_def get_events_states_zero get_events_states_wait
      Let_def check_for_updates_eq timeout_listener_def rest_notify register_fields callLater_def)

lemma next_listener_wake: "next_listener (wake src s ls) = next_listener s"
proof (induction ls arbitrary: s)
  case Nil
  show ?case by simp
next
  case (Cons l ls)
  then show ?case
    by (cases "src (user l) (from_token l) (limit l)") (simp add: rest_notify)
qed

lemma reaches_settled:
  assumes "reaches s0 s" and "wf s0" and "settled s0 l" and "ident l < next_listener s0"
  shows "settled s l \<and> ident l < next_listener s"
  using assms
proof (induction rule: reaches.induct)
  case start
  then show ?case by simp
next
  case (request s es u rs pc tmo)
  then show ?case
    by (simp add: settled_get_events_for next_listener_get_events_for)
next
  case (join s u rid)
  from join.hyps join.prems have "wf s" by (simp add: reaches_wf)
  with join show ?case
    by (simp add: settled_user_joined_room get_set_user_joined_room)
next
  case (room_event s iter ev extra_users es s')
  then show ?case
    by (auto simp add: on_new_room_event_def settled_wake next_listener_wake split: option.splits)
next
  case (user_event s iter users rs es s')
  then show ?case
    by (auto simp add: on_new_user_event_def settled_wake next_listener_wake split: option.splits)
next
  case (deadline s delay l')
  then show ?case
    by (simp add: timeout_listener_def settled_notify rest_notify)
qed

subsection \<open>The concrete runs\<close>

lemma reaches_waiting: "reaches init waiting"
  unfolding waiting_def by (rule reaches.request) (rule reaches.start)

lemma wf_waiting: "wf waiting"
  using reaches_waiting wf_init by (rule reaches_wf)

lemma alice_known_waiting: "alice \<in> known waiting"
  by (simp add: known_def waiting_eq)

text \<open>What a well-formed state gives the operations.\<close>

lemma wf_new_cell: "wf s \<Longrightarrow> deferreds s (next_deferred s) = None"
  by (simp add: wf_def)

lemma wf_new_listener_fresh:
  assumes "wf s"
  shows "new_listener es s d u rs ft lim tmo \<notin> get_set (rooms_to_listeners s) k
       \<and> new_listener es s d u rs ft lim tmo \<notin> get_set (user_to_listeners s) k"
proof -
  have "new_listener es s d u rs ft lim tmo \<notin> known s"
    using assms by (auto simp add: wf_def new_listener_fields)
  then show ?thesis by (simp add: in_known)
qed

lemma wf_snapshot_inj: "wf s \<Longrightarrow> inj_on deferred (room_event_listeners s rid extra_users)"
  using room_event_listeners_known [of s rid extra_users]
  by (auto simp add: wf_def intro: inj_on_subset)

lemma wf_user_index_unresolved:
  "wf s \<Longrightarrow> l \<in> get_set (user_to_listeners s) k \<Longrightarrow> k = user l \<and> deferreds s (deferred l) = None"
  by (auto simp add: wf_def)

text \<open>Without a join in between, resolution purges completely.\<close>

lemma notify_purges_own_entries:
  assumes "\<forall>k. l \<in> get_set (rooms_to_listeners s) k \<longrightarrow> k \<in> set (rooms l)"
    and "\<forall>k. l \<in> get_set (user_to_listeners s) k \<longrightarrow> k = user l"
  shows "l \<notin> get_set (rooms_to_listeners (notify s l evs a b)) k
       \<and> l \<notin> get_set (user_to_listeners (notify s l evs a b)) k"
  using assms by (auto simp add: get_set_notify)

lemma timeout_listener_payload:
  assumes "deferreds s (deferred l) = None"
  shows "deferreds (timeout_listener s l) (deferred l) = Some ([], (from_token l, from_token l))
       \<and> l \<notin> get_set (user_to_listeners (timeout_listener s l)) (user l)
       \<and> (\<forall>r \<in> set (rooms l). l \<notin> get_set (rooms_to_listeners (timeout_listener s l)) r)"
  using assms by (simp add: timeout_listener_def deferreds_notify get_set_notify)

lemma reaches_trans: "reaches s1 s2 \<Longrightarrow> reaches s0 s1 \<Longrightarrow> reaches s0 s2"
proof (induction rule: reaches.induct)
  case start
  then show ?case .
next
  case (request s es u rs pc tmo)
  then show ?case by (simp add: reaches.request)
next
  case (join s u rid)
  then show ?case by (simp add: reaches.join)
next
  case (room_event s iter ev extra_users es s')
  then show ?case by (blast intro: reaches.room_event)
next
  case (user_event s iter users rs es s')
  then show ?case by (blast intro: reaches.user_event)
next
  case (deadline s delay l)
  then show ?case by (blast intro: reaches.deadline)
qed

lemma reaches_joined: "reaches init joined"
  unfolding joined_def by (rule reaches.join) (rule reaches_waiting)

lemma reaches_leak_wake: "reaches init (wake two_events joined [alice])"
proof (rule reaches.room_event [OF reaches_joined, where iter = "\<lambda>L. [alice]" and ev = r2_event
      and extra_users = "[]" and es = busy])
  show "set [alice] \<subseteq> room_event_listeners joined (room_id r2_event) []"
    by (simp add: room_event_listeners_def r2_event_def joined_eq get_set_def)
  show "on_new_room_event busy (\<lambda>L. [alice]) joined r2_event [] = Some (wake two_events joined [alice])"
    by (simp add: on_new_room_event_def busy_def)
qed

lemma reaches_leak_timeout: "reaches init (timeout_listener joined alice)"
  by (rule reaches.deadline [OF reaches_joined, where delay = 5]) (simp add: joined_eq)

subsection \<open>What the loop over a snapshot leaves alone\<close>

lemma wake_timers: "timers (wake src s ls) = timers s"
proof (induction ls arbitrary: s)
  case Nil
  show ?case by simp
next
  case (Cons l ls)
  then show ?case
    by (cases "src (user l) (from_token l) (limit l)") (simp add: rest_notify)
qed

lemma next_deferred_wake: "next_deferred (wake src s ls) = next_deferred s"
proof (induction ls arbitrary: s)
  case Nil
  show ?case by simp
next
  case (Cons l ls)
  then show ?case
    by (cases "src (user l) (from_token l) (limit l)") (simp add: rest_notify)
qed

lemma wake_deferreds_untouched:
  assumes "\<forall>l \<in> set ls. deferred l = d \<longrightarrow> fst (answer src l) = []"
  shows "deferreds (wake src s ls) d = deferreds s d"
proof -
  from assms have "find (\<lambda>l. deferred l = d \<and> fst (answer src l) \<noteq> []) ls = None"
    by (auto simp add: find_None_iff)
  then show ?thesis
    by (simp add: wake_deferreds split: option.splits)
qed

lemma carol_fields:
  "user carol = ''@carol''" "rooms carol = [''!r3'']" "from_token carol = 5" "limit carol = 10"
  "deferred carol = 2" "ident carol = 2"
  by (simp_all add: carol_def)

lemma carol_others: "carol \<noteq> alice" "carol \<noteq> bob" "alice \<noteq> carol" "bob \<noteq> carol"
  by (simp_all add: alice_def bob_def carol_def)

lemma three_waiting_fields:
  "get_set (rooms_to_listeners three_waiting) k
     = (if k = ''!r1'' then {alice, bob} else if k = ''!r3'' then {carol} else {})"
  "get_set (user_to_listeners three_waiting) k
     = (if k = ''@alice'' then {alice} else if k = ''@bob'' then {bob}
        else if k = ''@carol'' then {carol} else {})"
  by (auto simp add: three_waiting_def register_fields carol_fields both_waiting_fields)

lemma three_waiting_deferreds: "deferreds three_waiting = Map.empty"
  by (simp add: three_waiting_def register_fields both_waiting_deferreds)

subsection \<open>Claims\<close>

text \<open>
  C1 (fails on the code). A resolved listener should be in no entry of either index, also
  not in a room entry it was merged into by \<open>_user_joined_room\<close>. \<open>notify\<close> discards the
  listener only from the entries of the rooms in \<open>self.rooms\<close>, and \<open>_user_joined_room\<close> does
  not add the joined room to \<open>self.rooms\<close>. The run: a listener for \<open>@alice\<close> and room \<open>!r1\<close>
  waits (5000 ms, no events yet); \<open>@alice\<close> joins \<open>!r2\<close>; a room event for \<open>!r2\<close> wakes the
  listener. It is resolved with the two events and gone from \<open>!r1\<close> and from the user index,
  and it is still in the entry of \<open>!r2\<close>.
\<close>

theorem leak_after_join_and_wake:
  "joined = user_joined_room (snd (get_events_for quiet init ''@alice'' [''!r1''] (Some 3, 10) 5000))
              ''@alice'' ''!r2''
   \<and> room_event_listeners joined ''!r2'' [] = set [alice]
   \<and> deferreds joined (deferred alice) = None
   \<and> on_new_room_event busy (\<lambda>L. [alice]) joined r2_event []
       = Some (wake two_events joined [alice])
   \<and> deferreds (wake two_events joined [alice]) (deferred alice) = Some ([''e1'', ''e2''], (3, 5))
   \<and> alice \<notin> get_set (rooms_to_listeners (wake two_events joined [alice])) ''!r1''
   \<and> alice \<notin> get_set (user_to_listeners (wake two_events joined [alice])) ''@alice''
   \<and> alice \<in> get_set (rooms_to_listeners (wake two_events joined [alice])) ''!r2''
   \<and> reaches init (wake two_events joined [alice])"
proof -
  have a: "joined = user_joined_room (snd (get_events_for quiet init ''@alice'' [''!r1''] (Some 3, 10) 5000))
              ''@alice'' ''!r2''"
    by (simp add: joined_def waiting_def)
  have b: "room_event_listeners joined ''!r2'' [] = set [alice]"
    by (simp add: room_event_listeners_def joined_eq get_set_def)
  have c: "deferreds joined (deferred alice) = None"
    by (simp add: joined_eq)
  have d: "on_new_room_event busy (\<lambda>L. [alice]) joined r2_event []
       = Some (wake two_events joined [alice])"
    by (simp add: on_new_room_event_def busy_def)
  have w: "wake two_events joined [alice] = notify joined alice [''e1'', ''e2''] 3 5"
    by (simp add: two_events_def alice_fields)
  have e: "deferreds (wake two_events joined [alice]) (deferred alice) = Some ([''e1'', ''e2''], (3, 5))"
    unfolding w by (simp add: deferreds_notify c)
  have f: "alice \<notin> get_set (rooms_to_listeners (wake two_events joined [alice])) ''!r1''"
    "alice \<notin> get_set (user_to_listeners (wake two_events joined [alice])) ''@alice''"
    "alice \<in> get_set (rooms_to_listeners (wake two_events joined [alice])) ''!r2''"
    unfolding w by (simp_all add: get_set_notify alice_fields) (simp add: joined_eq get_set_def)
  from a b c d e f reaches_leak_wake show ?thesis by blast
qed

text \<open>
  C2. Resolving a listener a second time is a silent no-op. Whatever the first and the second
  payload are, the state after two \<open>notify\<close> calls is the state after the first; the second
  \<open>callback\<close> does raise \<open>AlreadyCalledError\<close> inside \<open>notify\<close>, which swallows it; the Deferred
  holds the result it held after the first call (the first payload if it was empty before);
  and the same holds when one of the two calls is the timeout path. The second attempt may
  also come later: after any run that starts in the well-formed state the first resolution
  left, a further \<open>notify\<close> or timeout of the listener returns the state unchanged, its
  callback raises \<open>AlreadyCalledError\<close>, and the Deferred still holds the first result.
\<close>

theorem notify_twice_is_noop:
  "notify (notify s l evs a b) l evs' a' b' = notify s l evs a b
   \<and> callback (notify s l evs a b) (deferred l) (evs', (a', b')) = Inl AlreadyCalledError
   \<and> deferreds (notify (notify s l evs a b) l evs' a' b') (deferred l)
       = Some (case deferreds s (deferred l) of None \<Rightarrow> (evs, (a, b)) | Some r \<Rightarrow> r)
   \<and> timeout_listener (notify s l evs a b) l = notify s l evs a b
   \<and> notify (timeout_listener s l) l evs a b = timeout_listener s l
   \<and> (wf (notify s l evs a b) \<longrightarrow> ident l < next_listener s \<longrightarrow>
        reaches (notify s l evs a b) s' \<longrightarrow>
          notify s' l evs' a' b' = s'
          \<and> timeout_listener s' l = s'
          \<and> callback s' (deferred l) (evs', (a', b')) = Inl AlreadyCalledError
          \<and> deferreds s' (deferred l) = deferreds (notify s l evs a b) (deferred l))"
proof -
  have twice: "\<And>evs a b evs' a' b'. notify (notify s l evs a b) l evs' a' b' = notify s l evs a b"
    by (rule notify_notify)
  have kept: "deferreds (notify s l evs a b) (deferred l)
       = Some (case deferreds s (deferred l) of None \<Rightarrow> (evs, (a, b)) | Some r \<Rightarrow> r)"
    by (simp add: deferreds_notify split: option.splits)
  then have raised: "callback (notify s l evs a b) (deferred l) (evs', (a', b')) = Inl AlreadyCalledError"
    by (simp add: callback_def)
  have later: "notify s' l evs' a' b' = s'
          \<and> timeout_listener s' l = s'
          \<and> callback s' (deferred l) (evs', (a', b')) = Inl AlreadyCalledError
          \<and> deferreds s' (deferred l) = deferreds (notify s l evs a b) (deferred l)"
    if wf1: "wf (notify s l evs a b)" and old: "ident l < next_listener s"
      and path: "reaches (notify s l evs a b) s'"
  proof -
    from old have "ident l < next_listener (notify s l evs a b)"
      by (simp add: rest_notify)
    with reaches_settled [OF path wf1 notify_settles] have "settled s' l"
      by simp
    then have noop: "\<And>evs a b. notify s' l evs a b = s'"
      by (rule settled_noop)
    from reaches_cell [OF path kept] kept
    have same: "deferreds s' (deferred l) = deferreds (notify s l evs a b) (deferred l)"
      by simp
    with kept have "callback s' (deferred l) (evs', (a', b')) = Inl AlreadyCalledError"
      by (simp add: callback_def)
    with noop same show ?thesis
      by (simp add: timeout_listener_def)
  qed
  from raised kept later show ?thesis
    by (simp add: twice timeout_listener_def)
qed

theorem notify_twice_is_noop_witness:
  "wf (notify waiting alice [''e1''] 3 4)
   \<and> ident alice < next_listener waiting
   \<and> reaches (notify waiting alice [''e1''] 3 4)
        (user_joined_room (notify waiting alice [''e1''] 3 4) ''@alice'' ''!r1'')
   \<and> timeout_listener (user_joined_room (notify waiting alice [''e1''] 3 4) ''@alice'' ''!r1'') alice
       = user_joined_room (notify waiting alice [''e1''] 3 4) ''@alice'' ''!r1''
   \<and> deferreds (user_joined_room (notify waiting alice [''e1''] 3 4) ''@alice'' ''!r1'')
        (deferred alice) = Some ([''e1''], (3, 4))"
proof -
  let ?s1 = "notify waiting alice [''e1''] 3 4"
  let ?s2 = "user_joined_room ?s1 ''@alice'' ''!r1''"
  have wf1: "wf ?s1"
    using wf_waiting alice_known_waiting by (rule wf_notify_known)
  have old: "ident alice < next_listener waiting"
    by (simp add: waiting_eq alice_fields)
  have path: "reaches ?s1 ?s2"
    by (rule reaches.join) (rule reaches.start)
  have first: "deferreds ?s1 (deferred alice) = Some ([''e1''], (3, 4))"
    by (simp add: deferreds_notify waiting_eq)
  from notify_twice_is_noop [of waiting alice "[''e1'']" 3 4 "[]" 3 3 ?s2] wf1 old path
  have "timeout_listener ?s2 alice = ?s2"
    and "deferreds ?s2 (deferred alice) = deferreds ?s1 (deferred alice)"
    by blast+
  with wf1 old path first show ?thesis by simp
qed





text \<open>
  C4. \<open>_check_for_updates\<close> queries the sources in the order of the aggregate with the cursor
  chained: the log of the cursors handed out has one entry per source, the first is the
  listener's \<open>from_token\<close>, each later one is the cursor the previous source returned, the
  events are the concatenation of the answers in that order, the end cursor is what the
  last source returned (\<open>from_token\<close> when there is no source), and a non-empty result is
  delivered to an unresolved listener as \<open>(events, (from_token, end_token))\<close>.
\<close>

theorem check_for_updates_chains_cursor:
  assumes "poll_sources (map snd (sources es)) (user l) (limit l) (from_token l) [] []
             = (events, end_token, log)"
  shows "length log = length (sources es)
       \<and> (sources es \<noteq> [] \<longrightarrow> log ! 0 = from_token l)
       \<and> (\<forall>i. Suc i < length (sources es) \<longrightarrow>
             log ! Suc i = snd (snd (sources es ! i) (user l) (log ! i) (limit l)))
       \<and> events = concat (map (\<lambda>i. fst (snd (sources es ! i) (user l) (log ! i) (limit l)))
                            [0..<length (sources es)])
       \<and> (sources es \<noteq> [] \<longrightarrow>
             end_token = snd (snd (last (sources es)) (user l) (last log) (limit l)))
       \<and> (sources es = [] \<longrightarrow> end_token = from_token l)
       \<and> (events \<noteq> [] \<longrightarrow> deferreds s (deferred l) = None \<longrightarrow>
             deferreds (check_for_updates es s l) (deferred l)
               = Some (events, (from_token l, end_token)))"
proof -
  let ?srcs = "map snd (sources es)"
  let ?cs = "cursors ?srcs (user l) (limit l) (from_token l)"
  from assms have log: "log = ?cs"
    and events: "events = gathered ?srcs (user l) (limit l) (from_token l)"
    and end_token: "end_token = final_cursor ?srcs (user l) (limit l) (from_token l)"
    by (simp_all add: poll_sources_eq)
  have len: "length log = length (sources es)"
    by (simp add: log length_cursors)
  have first: "sources es \<noteq> [] \<longrightarrow> log ! 0 = from_token l"
    by (cases "sources es") (simp_all add: log)
  have chain: "\<forall>i. Suc i < length (sources es) \<longrightarrow>
             log ! Suc i = snd (snd (sources es ! i) (user l) (log ! i) (limit l))"
  proof (intro allI impI)
    fix i
    assume i: "Suc i < length (sources es)"
    then have "Suc i < length ?srcs" by simp
    from cursors_chain [OF this] i show
      "log ! Suc i = snd (snd (sources es ! i) (user l) (log ! i) (limit l))"
      by (simp add: log)
  qed
  have evs: "events = concat (map (\<lambda>i. fst (snd (sources es ! i) (user l) (log ! i) (limit l)))
                            [0..<length (sources es)])"
    unfolding events gathered_concat log by (rule arg_cong [where f = concat]) simp
  have last_tok: "sources es \<noteq> [] \<longrightarrow>
             end_token = snd (snd (last (sources es)) (user l) (last log) (limit l))"
  proof
    assume ne: "sources es \<noteq> []"
    then have "?srcs \<noteq> []" by simp
    from final_cursor_last [OF this] ne
    show "end_token = snd (snd (last (sources es)) (user l) (last log) (limit l))"
      by (simp add: log end_token last_map)
  qed
  have none: "sources es = [] \<longrightarrow> end_token = from_token l"
    by (simp add: end_token)
  have deliv: "events \<noteq> [] \<longrightarrow> deferreds s (deferred l) = None \<longrightarrow>
             deferreds (check_for_updates es s l) (deferred l)
               = Some (events, (from_token l, end_token))"
    using assms by (simp add: check_for_updates_def deferreds_notify)
  from len first chain evs last_tok none deliv show ?thesis by blast
qed


theorem check_for_updates_chains_cursor_witness:
  "poll_sources (map snd (sources busy)) (user alice) (limit alice) (from_token alice) [] []
     = ([''e1'', ''e2''], 5, [3, 5])
   \<and> [3, 5] ! Suc 0 = snd (snd (sources busy ! 0) (user alice) ([3, 5 :: nat] ! 0) (limit alice))
   \<and> deferreds (check_for_updates busy init alice) (deferred alice)
       = Some ([''e1'', ''e2''], (3, 5))"
proof -
  have run: "poll_sources (map snd (sources busy)) (user alice) (limit alice) (from_token alice) [] []
     = ([''e1'', ''e2''], 5, [3, 5])"
    by (simp add: busy_def alice_def two_events_def no_events_def)
  have len: "Suc 0 < length (sources busy)"
    by (simp add: busy_def)
  have fresh: "deferreds init (deferred alice) = None"
    by (simp add: init_def)
  have step: "[3, 5] ! Suc 0
      = snd (snd (sources busy ! 0) (user alice) ([3, 5 :: nat] ! 0) (limit alice))"
    by (simp add: busy_def two_events_def)
  from check_for_updates_chains_cursor [OF run, of init] fresh
  have "deferreds (check_for_updates busy init alice) (deferred alice)
       = Some ([''e1'', ''e2''], (from_token alice, 5))"
    by simp
  then have "deferreds (check_for_updates busy init alice) (deferred alice)
       = Some ([''e1'', ''e2''], (3, 5))"
    by (simp add: alice_def)
  with run step show ?thesis by simp
qed



text \<open>
  C6 (fails on the code in its last part). When the timer of a waiting listener fires, the
  listener is resolved with the empty list and start and end cursor both its own
  \<open>from_token\<close>, and it is discarded from the entries of its rooms and of its user. It is not
  discarded from a room entry it was merged into by \<open>_user_joined_room\<close>: in the run of C1
  with the timer firing in place of the room event, the listener is resolved with
  \<open>([], (3, 3))\<close> and is still in the entry of \<open>!r2\<close>.
\<close>

theorem leak_after_join_and_timeout:
  "joined = user_joined_room (snd (get_events_for quiet init ''@alice'' [''!r1''] (Some 3, 10) 5000))
              ''@alice'' ''!r2''
   \<and> timers joined = [(5, alice)]
   \<and> alice \<in> get_set (rooms_to_listeners joined) ''!r1''
   \<and> alice \<in> get_set (user_to_listeners joined) ''@alice''
   \<and> deferreds joined (deferred alice) = None
   \<and> deferreds (timeout_listener joined alice) (deferred alice) = Some ([], (3, 3))
   \<and> alice \<notin> get_set (rooms_to_listeners (timeout_listener joined alice)) ''!r1''
   \<and> alice \<notin> get_set (user_to_listeners (timeout_listener joined alice)) ''@alice''
   \<and> alice \<in> get_set (rooms_to_listeners (timeout_listener joined alice)) ''!r2''
   \<and> reaches init (timeout_listener joined alice)"
proof -
  have a: "joined = user_joined_room (snd (get_events_for quiet init ''@alice'' [''!r1''] (Some 3, 10) 5000))
              ''@alice'' ''!r2''"
    by (simp add: joined_def waiting_def)
  have b: "timers joined = [(5, alice)]"
    "alice \<in> get_set (rooms_to_listeners joined) ''!r1''"
    "alice \<in> get_set (user_to_listeners joined) ''@alice''"
    "deferreds joined (deferred alice) = None"
    by (simp_all add: joined_eq get_set_def)
  have c: "deferreds (timeout_listener joined alice) (deferred alice) = Some ([], (3, 3))"
    using b(4) by (simp add: timeout_listener_def deferreds_notify alice_fields)
  have d: "alice \<notin> get_set (rooms_to_listeners (timeout_listener joined alice)) ''!r1''"
    "alice \<notin> get_set (user_to_listeners (timeout_listener joined alice)) ''@alice''"
    "alice \<in> get_set (rooms_to_listeners (timeout_listener joined alice)) ''!r2''"
    by (simp_all add: timeout_listener_def get_set_notify alice_fields) (simp add: joined_eq get_set_def)
  from a b c d reaches_leak_timeout show ?thesis by blast
qed

text \<open>
  C7. \<open>on_new_room_event\<close> works on a snapshot taken from the state it is called in: the
  room's entry united with the entries of the extra users. Whatever order the snapshot is
  visited in, as long as every listener of it is visited and no two of them share a
  Deferred: a listener of the snapshot that was unresolved is resolved with the answer of the
  room source to its own user, \<open>from_token\<close> and \<open>limit\<close>, as
  \<open>(events, (from_token, new cursor))\<close>, exactly when that answer has events; a listener of
  the snapshot whose answer is empty keeps its Deferred as it was and is in each index entry
  exactly when it was before. Nothing outside the snapshot is touched: a Deferred that no
  listener of the snapshot with events holds is as it was, and a listener leaves an index
  entry exactly when it is in the snapshot, its answer has events, and the entry is that of
  one of its own rooms or of its own user; timers and free addresses are as they were.
\<close>

theorem on_new_room_event_wakes:
  assumes src: "map_of (sources es) ''room'' = Some src"
    and snapshot: "snapshot = get_set (rooms_to_listeners s) (room_id ev)
                      \<union> (\<Union>u \<in> set extra_users. get_set (user_to_listeners s) u)"
    and iter: "set (iter snapshot) = snapshot"
    and own: "inj_on deferred snapshot"
  shows "\<exists>s'. on_new_room_event es iter s ev extra_users = Some s'
     \<and> (\<forall>l \<in> snapshot.
           deferreds s (deferred l) = None \<longrightarrow>
           deferreds s' (deferred l)
             = (if fst (src (user l) (from_token l) (limit l)) \<noteq> []
                then Some (fst (src (user l) (from_token l) (limit l)),
                           (from_token l, snd (src (user l) (from_token l) (limit l))))
                else None))
     \<and> (\<forall>l \<in> snapshot.
           fst (src (user l) (from_token l) (limit l)) = [] \<longrightarrow>
           deferreds s' (deferred l) = deferreds s (deferred l)
           \<and> (\<forall>k. (l \<in> get_set (rooms_to_listeners s') k
                      \<longleftrightarrow> l \<in> get_set (rooms_to_listeners s) k)
                  \<and> (l \<in> get_set (user_to_listeners s') k
                      \<longleftrightarrow> l \<in> get_set (user_to_listeners s) k)))
     \<and> (\<forall>d. (\<forall>l \<in> snapshot. deferred l = d
                  \<longrightarrow> fst (src (user l) (from_token l) (limit l)) = [])
             \<longrightarrow> deferreds s' d = deferreds s d)
     \<and> (\<forall>l k. l \<in> get_set (rooms_to_listeners s') k \<longleftrightarrow>
                 l \<in> get_set (rooms_to_listeners s) k
                 \<and> \<not> (l \<in> snapshot \<and> k \<in> set (rooms l)
                        \<and> fst (src (user l) (from_token l) (limit l)) \<noteq> []))
     \<and> (\<forall>l k. l \<in> get_set (user_to_listeners s') k \<longleftrightarrow>
                 l \<in> get_set (user_to_listeners s) k
                 \<and> \<not> (l \<in> snapshot \<and> k = user l
                        \<and> fst (src (user l) (from_token l) (limit l)) \<noteq> []))
     \<and> timers s' = timers s
     \<and> next_deferred s' = next_deferred s
     \<and> next_listener s' = next_listener s"
proof -
  let ?L = "room_event_listeners s (room_id ev) extra_users"
  have L: "?L = snapshot"
    by (simp add: room_event_listeners_union snapshot)
  let ?s' = "wake src s (iter snapshot)"
  have run: "on_new_room_event es iter s ev extra_users = Some ?s'"
    by (simp add: on_new_room_event_def src L)
  have uniq: "\<forall>l' \<in> set (iter snapshot). deferred l' = deferred l \<longrightarrow> l' = l"
    if "l \<in> snapshot" for l
    using own that by (auto simp add: iter dest: inj_onD)
  have cell: "deferreds ?s' (deferred l) =
      (case deferreds s (deferred l) of
         Some r \<Rightarrow> Some r
       | None \<Rightarrow> if fst (answer src l) \<noteq> []
                 then Some (fst (answer src l), (from_token l, snd (answer src l)))
                 else None)" if "l \<in> snapshot" for l
  proof -
    from that have "l \<in> set (iter snapshot)" by (simp add: iter)
    from find_unique [OF this uniq [OF that]] show ?thesis
      by (simp add: wake_deferreds split: option.splits)
  qed
  have woken: "\<forall>l \<in> snapshot. deferreds s (deferred l) = None \<longrightarrow>
           deferreds ?s' (deferred l)
             = (if fst (src (user l) (from_token l) (limit l)) \<noteq> []
                then Some (fst (src (user l) (from_token l) (limit l)),
                           (from_token l, snd (src (user l) (from_token l) (limit l))))
                else None)"
    by (simp add: cell answer_def)
  have left: "\<forall>l \<in> snapshot. fst (src (user l) (from_token l) (limit l)) = [] \<longrightarrow>
           deferreds ?s' (deferred l) = deferreds s (deferred l)
           \<and> (\<forall>k. (l \<in> get_set (rooms_to_listeners ?s') k
                      \<longleftrightarrow> l \<in> get_set (rooms_to_listeners s) k)
                  \<and> (l \<in> get_set (user_to_listeners ?s') k
                      \<longleftrightarrow> l \<in> get_set (user_to_listeners s) k))"
    by (auto simp add: cell wake_rooms wake_users answer_def split: option.splits)
  have others: "\<forall>d. (\<forall>l \<in> snapshot. deferred l = d
                  \<longrightarrow> fst (src (user l) (from_token l) (limit l)) = [])
             \<longrightarrow> deferreds ?s' d = deferreds s d"
    by (intro allI impI, rule wake_deferreds_untouched) (simp add: iter answer_def)
  have rooms: "\<forall>l k. l \<in> get_set (rooms_to_listeners ?s') k \<longleftrightarrow>
                 l \<in> get_set (rooms_to_listeners s) k
                 \<and> \<not> (l \<in> snapshot \<and> k \<in> set (rooms l)
                        \<and> fst (src (user l) (from_token l) (limit l)) \<noteq> [])"
    by (auto simp add: wake_rooms iter answer_def)
  have users: "\<forall>l k. l \<in> get_set (user_to_listeners ?s') k \<longleftrightarrow>
                 l \<in> get_set (user_to_listeners s) k
                 \<and> \<not> (l \<in> snapshot \<and> k = user l
                        \<and> fst (src (user l) (from_token l) (limit l)) \<noteq> [])"
    by (auto simp add: wake_users iter answer_def)
  have rest: "timers ?s' = timers s" "next_deferred ?s' = next_deferred s"
    "next_listener ?s' = next_listener s"
    by (simp_all add: wake_timers next_deferred_wake next_listener_wake)
  from run woken left others rooms users rest show ?thesis by blast
qed

text \<open>
  The run: \<open>alice\<close> and \<open>bob\<close> wait in \<open>!r1\<close>, \<open>carol\<close> waits in \<open>!r3\<close>; the room source has an
  event for everyone but \<open>@bob\<close>. An event in \<open>!r1\<close> resolves \<open>alice\<close> and removes her from
  her entries, leaves \<open>bob\<close> waiting, and does not touch \<open>carol\<close>, for whom the source has
  an event too.
\<close>

theorem on_new_room_event_wakes_witness:
  "map_of (sources selective) ''room'' = Some not_for_bob
   \<and> {alice, bob} = get_set (rooms_to_listeners three_waiting) (room_id r1_event)
                       \<union> (\<Union>u \<in> set []. get_set (user_to_listeners three_waiting) u)
   \<and> set [alice, bob] = {alice, bob}
   \<and> inj_on deferred {alice, bob}
   \<and> fst (not_for_bob (user carol) (from_token carol) (limit carol)) = [''e1'']
   \<and> (\<exists>s'. on_new_room_event selective (\<lambda>L. [alice, bob]) three_waiting r1_event [] = Some s'
         \<and> deferreds s' (deferred alice) = Some ([''e1''], (3, 4))
         \<and> deferreds s' (deferred bob) = None
         \<and> deferreds s' (deferred carol) = None
         \<and> alice \<notin> get_set (rooms_to_listeners s') ''!r1''
         \<and> alice \<notin> get_set (user_to_listeners s') ''@alice''
         \<and> bob \<in> get_set (rooms_to_listeners s') ''!r1''
         \<and> bob \<in> get_set (user_to_listeners s') ''@bob''
         \<and> carol \<in> get_set (rooms_to_listeners s') ''!r3''
         \<and> carol \<in> get_set (user_to_listeners s') ''@carol'')"
proof -
  have src: "map_of (sources selective) ''room'' = Some not_for_bob"
    by (simp add: selective_def)
  have snap: "{alice, bob} = get_set (rooms_to_listeners three_waiting) (room_id r1_event)
                       \<union> (\<Union>u \<in> set []. get_set (user_to_listeners three_waiting) u)"
    by (simp add: r1_event_def three_waiting_fields)
  have iter: "set ((\<lambda>L. [alice, bob]) {alice, bob}) = {alice, bob}"
    by simp
  have own: "inj_on deferred {alice, bob}"
    by (simp add: alice_fields bob_fields alice_bob)
  have carol_events: "fst (not_for_bob (user carol) (from_token carol) (limit carol)) = [''e1'']"
    by (simp add: not_for_bob_def carol_fields)
  from on_new_room_event_wakes [OF src snap iter own] obtain s' where
    run: "on_new_room_event selective (\<lambda>L. [alice, bob]) three_waiting r1_event [] = Some s'"
    and woken: "\<forall>l \<in> {alice, bob}.
           deferreds three_waiting (deferred l) = None \<longrightarrow>
           deferreds s' (deferred l)
             = (if fst (not_for_bob (user l) (from_token l) (limit l)) \<noteq> []
                then Some (fst (not_for_bob (user l) (from_token l) (limit l)),
                           (from_token l, snd (not_for_bob (user l) (from_token l) (limit l))))
                else None)"
    and others: "\<forall>d. (\<forall>l \<in> {alice, bob}. deferred l = d
                  \<longrightarrow> fst (not_for_bob (user l) (from_token l) (limit l)) = [])
             \<longrightarrow> deferreds s' d = deferreds three_waiting d"
    and rooms: "\<forall>l k. l \<in> get_set (rooms_to_listeners s') k \<longleftrightarrow>
                 l \<in> get_set (rooms_to_listeners three_waiting) k
                 \<and> \<not> (l \<in> {alice, bob} \<and> k \<in> set (rooms l)
                        \<and> fst (not_for_bob (user l) (from_token l) (limit l)) \<noteq> [])"
    and users: "\<forall>l k. l \<in> get_set (user_to_listeners s') k \<longleftrightarrow>
                 l \<in> get_set (user_to_listeners three_waiting) k
                 \<and> \<not> (l \<in> {alice, bob} \<and> k = user l
                        \<and> fst (not_for_bob (user l) (from_token l) (limit l)) \<noteq> [])"
    by (elim exE conjE) (rule that; assumption)
  from woken have a: "deferreds s' (deferred alice) = Some ([''e1''], (3, 4))"
    by (simp add: three_waiting_deferreds not_for_bob_def alice_fields)
  from woken have b: "deferreds s' (deferred bob) = None"
    by (simp add: three_waiting_deferreds not_for_bob_def bob_fields)
  have "\<forall>l \<in> {alice, bob}. deferred l = deferred carol
            \<longrightarrow> fst (not_for_bob (user l) (from_token l) (limit l)) = []"
    by (simp add: alice_fields bob_fields carol_fields)
  from others [THEN spec, THEN mp, OF this] have c: "deferreds s' (deferred carol) = None"
    by (simp add: three_waiting_deferreds)
  from rooms [rule_format, of alice "''!r1''"]
  have ar: "alice \<notin> get_set (rooms_to_listeners s') ''!r1''"
    by (simp add: not_for_bob_def alice_fields)
  from users [rule_format, of alice "''@alice''"]
  have au: "alice \<notin> get_set (user_to_listeners s') ''@alice''"
    by (simp add: not_for_bob_def alice_fields)
  from rooms [rule_format, of bob "''!r1''"]
  have br: "bob \<in> get_set (rooms_to_listeners s') ''!r1''"
    by (simp add: not_for_bob_def bob_fields three_waiting_fields)
  from users [rule_format, of bob "''@bob''"]
  have bu: "bob \<in> get_set (user_to_listeners s') ''@bob''"
    by (simp add: not_for_bob_def bob_fields three_waiting_fields)
  from rooms [rule_format, of carol "''!r3''"]
  have cr: "carol \<in> get_set (rooms_to_listeners s') ''!r3''"
    by (simp add: three_waiting_fields carol_others)
  from users [rule_format, of carol "''@carol''"]
  have cu: "carol \<in> get_set (user_to_listeners s') ''@carol''"
    by (simp add: three_waiting_fields carol_others)
  have enum: "set [alice, bob] = {alice, bob}"
    by simp
  show ?thesis
    by (intro conjI exI [of _ s'])
      (fact src snap enum own carol_events run a b c ar au br bu cr cu)+
qed

text \<open>
  C8. After \<open>user_joined_room(user, room_id)\<close> the room's entry exists and is the union of
  what it was and the user's entry: every listener of the user is in it, every listener that
  was in it still is, and the user index is unchanged.
\<close>

theorem user_joined_room_merges:
  "get_set (rooms_to_listeners (user_joined_room s u rid)) rid
     = get_set (rooms_to_listeners s) rid \<union> get_set (user_to_listeners s) u
   \<and> rooms_to_listeners (user_joined_room s u rid) rid \<noteq> None
   \<and> user_to_listeners (user_joined_room s u rid) = user_to_listeners s
   \<and> (\<forall>l. l \<in> get_set (user_to_listeners s) u
          \<longrightarrow> l \<in> get_set (rooms_to_listeners (user_joined_room s u rid)) rid)
   \<and> (\<forall>l. l \<in> get_set (rooms_to_listeners s) rid
          \<longrightarrow> l \<in> get_set (rooms_to_listeners (user_joined_room s u rid)) rid)"
  by (simp add: user_joined_room_def get_set_def Let_def)


theorem user_joined_room_merges_witness:
  "alice \<in> get_set (user_to_listeners both_waiting) ''@alice''
   \<and> alice \<in> get_set (rooms_to_listeners (user_joined_room both_waiting ''@alice'' ''!r2'')) ''!r2''
   \<and> bob \<in> get_set (rooms_to_listeners both_waiting) ''!r1''
   \<and> bob \<in> get_set (rooms_to_listeners (user_joined_room both_waiting ''@alice'' ''!r1'')) ''!r1''"
proof -
  have a: "alice \<in> get_set (user_to_listeners both_waiting) ''@alice''"
    by (simp add: both_waiting_def register_with_keys_def init_def alice_def bob_def
        add_at_def get_set_def Let_def)
  have b: "bob \<in> get_set (rooms_to_listeners both_waiting) ''!r1''"
    by (simp add: both_waiting_def register_with_keys_def init_def alice_def bob_def
        add_at_def get_set_def Let_def)
  from a b user_joined_room_merges [of both_waiting "''@alice''" "''!r2''"]
    user_joined_room_merges [of both_waiting "''@alice''" "''!r1''"]
  show ?thesis by blast
qed

text \<open>
  C9. Resolving a listener removes only that listener: any other listener is in an entry
  of either index after the resolution exactly when it was in it before.
\<close>

theorem notify_removes_only_itself:
  assumes "l' \<noteq> l"
  shows "(l' \<in> get_set (rooms_to_listeners (notify s l evs a b)) r
            \<longleftrightarrow> l' \<in> get_set (rooms_to_listeners s) r)
       \<and> (l' \<in> get_set (user_to_listeners (notify s l evs a b)) u
            \<longleftrightarrow> l' \<in> get_set (user_to_listeners s) u)"
  using assms by (simp add: rooms_notify users_notify get_set_fold_discard get_set_discard_at)


theorem notify_removes_only_itself_witness:
  "bob \<noteq> alice
   \<and> bob \<in> get_set (rooms_to_listeners both_waiting) ''!r1''
   \<and> bob \<in> get_set (rooms_to_listeners (notify both_waiting alice [''e1''] 3 4)) ''!r1''
   \<and> alice \<notin> get_set (rooms_to_listeners (notify both_waiting alice [''e1''] 3 4)) ''!r1''"
proof -
  have ne: "bob \<noteq> alice"
    by (simp add: alice_def bob_def)
  have b: "bob \<in> get_set (rooms_to_listeners both_waiting) ''!r1''"
    by (simp add: both_waiting_def register_with_keys_def init_def alice_def bob_def
        add_at_def get_set_def Let_def)
  have "rooms alice = [''!r1'']"
    by (simp add: alice_def)
  then have a: "alice \<notin> get_set (rooms_to_listeners (notify both_waiting alice [''e1''] 3 4)) ''!r1''"
    by (simp add: rooms_notify get_set_discard_at)
  from notify_removes_only_itself [OF ne, of both_waiting "[''e1'']" 3 4 "''!r1''" "''@bob''"] ne a b
  show ?thesis by simp
qed

text \<open>
  C10. With a zero timeout and a check that returns events, the Deferred the call returns
  holds those events with \<open>(from_token, end_token)\<close>, where \<open>from_token\<close> is the listener's
  (the token given, or the current token when the one given is falsy) and the check polls
  from it: it holds them after the check, the
  callback of the timeout path that follows raises \<open>AlreadyCalledError\<close>, and the result is
  the same when the call is over.
\<close>

theorem zero_timeout_keeps_events:
  assumes empty_cell: "deferreds s (next_deferred s) = None"
    and poll: "poll_sources (map snd (sources es)) u lim
                 (starting_token es ft) [] []
               = (events, end_token, log)"
    and some: "events \<noteq> []"
  shows "fst (get_events_for es s u rs (ft, lim) 0) = next_deferred s
     \<and> deferreds (snd (get_events_for es s u rs (ft, lim) 0)) (next_deferred s)
         = Some (events, (starting_token es ft, end_token))
     \<and> deferreds (get_events_states es (s\<lparr>next_deferred := Suc (next_deferred s)\<rparr>)
                    (next_deferred s) u rs ft lim 0 ! 2) (next_deferred s)
         = Some (events, (starting_token es ft, end_token))
     \<and> callback (get_events_states es (s\<lparr>next_deferred := Suc (next_deferred s)\<rparr>)
                    (next_deferred s) u rs ft lim 0 ! 2) (next_deferred s)
          ([], (starting_token es ft,
                starting_token es ft))
         = Inl AlreadyCalledError"
proof -
  let ?d = "next_deferred s"
  let ?s0 = "s\<lparr>next_deferred := Suc (next_deferred s)\<rparr>"
  let ?l = "new_listener es s ?d u rs ft lim 0"
  let ?s1 = "s\<lparr>next_deferred := Suc (next_deferred s), next_listener := Suc (next_listener s)\<rparr>"
  let ?tok = "starting_token es ft"
  have states: "get_events_states es ?s0 ?d u rs ft lim 0 =
      [?s1, ?s1, check_for_updates es ?s1 ?l, timeout_listener (check_for_updates es ?s1 ?l) ?l]"
    by (simp add: get_events_states_zero Let_def new_listener_next_deferred)
  from poll some have check: "check_for_updates es ?s1 ?l = notify ?s1 ?l events ?tok end_token"
    by (simp add: check_for_updates_def new_listener_fields)
  have checked: "deferreds (check_for_updates es ?s1 ?l) ?d = Some (events, (?tok, end_token))"
    unfolding check using empty_cell by (simp add: deferreds_notify new_listener_fields)
  have a: "fst (get_events_for es s u rs (ft, lim) 0) = ?d"
    by (simp add: get_events_for_def Let_def)
  have b: "deferreds (snd (get_events_for es s u rs (ft, lim) 0)) ?d = Some (events, (?tok, end_token))"
    using checked
    by (simp add: get_events_for_def get_events_def Let_def states timeout_listener_def
        deferreds_notify new_listener_fields)
  have c: "deferreds (get_events_states es ?s0 ?d u rs ft lim 0 ! 2) ?d = Some (events, (?tok, end_token))"
    using checked by (simp add: states)
  have d: "callback (get_events_states es ?s0 ?d u rs ft lim 0 ! 2) ?d ([], (?tok, ?tok))
         = Inl AlreadyCalledError"
    using checked by (simp add: states callback_def)
  from a b c d show ?thesis by blast
qed

theorem zero_timeout_keeps_events_witness:
  "deferreds init (next_deferred init) = None
   \<and> poll_sources (map snd (sources busy)) ''@alice'' 10 3 [] [] = ([''e1'', ''e2''], 5, [3, 5])
   \<and> poll_sources (map snd (sources busy)) ''@alice'' 10 7 [] [] = ([''e1'', ''e2''], 9, [7, 9])
   \<and> [''e1'', ''e2''] \<noteq> ([] :: event list)
   \<and> fst (get_events_for busy init ''@alice'' [''!r1''] (Some 3, 10) 0) = 0
   \<and> deferreds (snd (get_events_for busy init ''@alice'' [''!r1''] (Some 3, 10) 0)) 0
       = Some ([''e1'', ''e2''], (3, 5))
   \<and> deferreds (snd (get_events_for busy init ''@alice'' [''!r1''] (Some 0, 10) 0)) 0
       = Some ([''e1'', ''e2''], (7, 9))"
proof -
  have cell: "deferreds init (next_deferred init) = None"
    by (simp add: init_fields)
  have given: "starting_token busy (Some 3) = 3"
    by simp
  have falsy: "starting_token busy (Some 0) = 7"
    by (simp add: busy_def)
  have poll7: "poll_sources (map snd (sources busy)) ''@alice'' 10 7 [] []
      = ([''e1'', ''e2''], 9, [7, 9])"
    by (simp add: busy_def two_events_def no_events_def)
  have poll: "poll_sources (map snd (sources busy)) ''@alice'' 10
                (starting_token busy (Some 3)) [] []
              = ([''e1'', ''e2''], 5, [3, 5])"
    by (simp only: given busy_poll)
  have poll': "poll_sources (map snd (sources busy)) ''@alice'' 10
                (starting_token busy (Some 0)) [] []
              = ([''e1'', ''e2''], 9, [7, 9])"
    by (simp only: falsy poll7)
  have some: "[''e1'', ''e2''] \<noteq> ([] :: event list)" by simp
  note facts = zero_timeout_keeps_events [OF cell poll some, of "[''!r1'']"]
  note facts' = zero_timeout_keeps_events [OF cell poll' some, of "[''!r1'']"]
  from facts have d: "fst (get_events_for busy init ''@alice'' [''!r1''] (Some 3, 10) 0) = next_deferred init"
    by (rule conjunct1)
  from facts have "deferreds (snd (get_events_for busy init ''@alice'' [''!r1''] (Some 3, 10) 0))
       (next_deferred init) = Some ([''e1'', ''e2''], (starting_token busy (Some 3), 5))"
    by (rule conjunct2 [THEN conjunct1])
  then have r: "deferreds (snd (get_events_for busy init ''@alice'' [''!r1''] (Some 3, 10) 0))
       (next_deferred init) = Some ([''e1'', ''e2''], (3, 5))"
    by (simp only: given)
  from facts' have "deferreds (snd (get_events_for busy init ''@alice'' [''!r1''] (Some 0, 10) 0))
       (next_deferred init) = Some ([''e1'', ''e2''], (starting_token busy (Some 0), 9))"
    by (rule conjunct2 [THEN conjunct1])
  then have r': "deferreds (snd (get_events_for busy init ''@alice'' [''!r1''] (Some 0, 10) 0))
       (next_deferred init) = Some ([''e1'', ''e2''], (7, 9))"
    by (simp only: falsy)
  from cell busy_poll poll7 some d r r' show ?thesis
    by (simp add: init_fields)
qed

end
